theory Spec2Isabelle
  imports Main
begin

section \<open>The game of \<^verbatim>\<open>src/App.tsx\<close>\<close>

subsection \<open>Errors\<close>

text \<open>
  \<^verbatim>\<open>_GAME_ERRORS\<close> maps each error kind to its message; \<^verbatim>\<open>GameError\<close> is the
  exception thrown with a kind. The other exception the program can raise is the
  \<^verbatim>\<open>TypeError\<close> of reading \<^verbatim>\<open>.value\<close> from the \<^verbatim>\<open>undefined\<close> that
  \<^verbatim>\<open>find(...)!\<close> yields when no cell has the identifier.
\<close>

datatype ErrKind = CELL_ALREADY_HAS_VALUE | GAME_IS_OVER_CANNOT_MAKE_THE_MOVE

fun GAME_ERRORS :: "ErrKind \<Rightarrow> string" where
  "GAME_ERRORS CELL_ALREADY_HAS_VALUE = ''This cell already has value''"
| "GAME_ERRORS GAME_IS_OVER_CANNOT_MAKE_THE_MOVE =
     ''The Game is already over. You cannot make the move''"

datatype exn = GameError ErrKind | TypeError

subsection \<open>Cells, values and statuses\<close>

text \<open>
  \<^verbatim>\<open>type CellValue = 'X' | 'O' | null | number\<close>. The program itself only ever writes
  \<^verbatim>\<open>null\<close>, \<^verbatim>\<open>'X'\<close> and \<^verbatim>\<open>'O'\<close>; the numeric alternative is kept because the type
  admits it. A value is only compared with \<^verbatim>\<open>===\<close> and tested for truthiness:
  \<^verbatim>\<open>null\<close> and the number zero are falsy, the two marks are truthy. The marks
  \<^verbatim>\<open>'X'\<close> and \<^verbatim>\<open>'O'\<close> are \<open>MarkX\<close> and \<open>MarkO\<close>; the payload of a number is
  taken as an integer. Identifiers and move numbers are natural numbers: the program
  counts them up from 0 or 1.
\<close>

datatype CellValue = MarkX | MarkO | Null | Num int

fun truthy :: "CellValue \<Rightarrow> bool" where
  "truthy MarkX = True"
| "truthy MarkO = True"
| "truthy Null = False"
| "truthy (Num n) = (n \<noteq> 0)"

datatype GameStatus = X_turn | O_turn | X_won | O_won | Stalemate

fun status_text :: "GameStatus \<Rightarrow> string" where
  "status_text X_turn = ''X turn''"
| "status_text O_turn = ''O turn''"
| "status_text X_won = ''X won''"
| "status_text O_won = ''O won''"
| "status_text Stalemate = ''Stalemate''"

record Cell =
  cell_id :: nat
  cell_value :: CellValue

definition createCells :: "Cell list" where
  "createCells = map (\<lambda>i. \<lparr>cell_id = i + 1, cell_value = Null\<rparr>) [0..<9]"

subsection \<open>The win detector\<close>

text \<open>
  Each element of \<^verbatim>\<open>winConditions\<close> is an array of three identifiers, read at the
  indices 0, 1 and 2: a triple.
\<close>

definition winConditions :: "(nat \<times> nat \<times> nat) list" where
  "winConditions =
     [(1, 2, 3), (4, 5, 6), (7, 8, 9),
      (1, 4, 7), (2, 5, 8), (3, 6, 9),
      (1, 5, 9), (3, 5, 7)]"

text \<open>
  \<^verbatim>\<open>cellValue\<close>: the first cell with the identifier; \<open>None\<close> stands for the
  \<^verbatim>\<open>TypeError\<close> of the violated non-null assertion.
\<close>

definition cellValue :: "Cell list \<Rightarrow> nat \<Rightarrow> CellValue option" where
  "cellValue cells i =
     (case find (\<lambda>c. cell_id c = i) cells of
        None \<Rightarrow> None
      | Some c \<Rightarrow> Some (cell_value c))"

text \<open>
  The \<^verbatim>\<open>for\<close> loop over the lines. The third value is read only when the first two
  are equal (\<^verbatim>\<open>&&\<close> short-circuits); a line of three equal values that are no mark
  returns nothing and the loop goes on.
\<close>

fun checkLines :: "Cell list \<Rightarrow> (nat \<times> nat \<times> nat) list \<Rightarrow> exn + GameStatus option" where
  "checkLines cells [] = Inr None"
| "checkLines cells ((i0, i1, i2) # rest) =
     (case cellValue cells i0 of
        None \<Rightarrow> Inl TypeError
      | Some v0 \<Rightarrow>
         (case cellValue cells i1 of
            None \<Rightarrow> Inl TypeError
          | Some v1 \<Rightarrow>
             if v0 = v1 then
               (case cellValue cells i2 of
                  None \<Rightarrow> Inl TypeError
                | Some v2 \<Rightarrow>
                   if v1 = v2 then
                     (if v0 = MarkO then Inr (Some O_won)
                      else if v0 = MarkX then Inr (Some X_won)
                      else checkLines cells rest)
                   else checkLines cells rest)
             else checkLines cells rest))"

definition checkWinCondition :: "Cell list \<Rightarrow> exn + GameStatus option" where
  "checkWinCondition cells = checkLines cells winConditions"

subsection \<open>History entries\<close>

record MoveHistoryEntry =
  move_id :: nat
  move_cells :: "Cell list"
  move_status :: GameStatus
  move_label :: string

fun digit_char :: "nat \<Rightarrow> char" where
  "digit_char n = char_of (48 + n)"

fun string_of_nat :: "nat \<Rightarrow> string" where
  "string_of_nat n =
     (if n < 10 then [digit_char n]
      else string_of_nat (n div 10) @ [digit_char (n mod 10)])"

declare string_of_nat.simps [simp del]

text \<open>
  \<^verbatim>\<open>createMove\<close>: the optional label counts when it is truthy, that is given and
  not the empty string.
\<close>

definition createMove ::
  "nat \<Rightarrow> Cell list \<Rightarrow> GameStatus \<Rightarrow> string option \<Rightarrow> MoveHistoryEntry" where
  "createMove i cs st label =
     \<lparr>move_id = i, move_cells = cs, move_status = st,
      move_label =
        (if label \<noteq> None \<and> label \<noteq> Some [] then the label
         else if i = 0 then ''Go to game start''
         else ''Go to move #'' @ string_of_nat i)\<rparr>"

subsection \<open>The session: the five state variables of \<^verbatim>\<open>Game\<close>\<close>

record Session =
  status :: GameStatus
  moves :: "MoveHistoryEntry list"
  cells :: "Cell list"
  moveId :: nat
  gameOver :: bool

definition initial :: Session where
  "initial =
     \<lparr>status = X_turn,
      moves = [createMove 0 createCells X_turn None],
      cells = createCells,
      moveId = 0,
      gameOver = False\<rparr>"

definition goToMove :: "MoveHistoryEntry \<Rightarrow> Session \<Rightarrow> Session" where
  "goToMove e s = s\<lparr>moveId := move_id e, status := move_status e, cells := move_cells e\<rparr>"

definition startNewGame :: "Session \<Rightarrow> Session" where
  "startNewGame s =
     s\<lparr>status := X_turn,
       moves := [createMove 0 createCells X_turn None],
       cells := createCells,
       moveId := 0,
       gameOver := False\<rparr>"

text \<open>
  The callback of \<^verbatim>\<open>cells.map\<close> in \<^verbatim>\<open>makeTurn\<close>: every cell with the clicked
  identifier gets the mark of the player to move, and the first such cell with a truthy
  value throws.
\<close>

fun updatedCells :: "GameStatus \<Rightarrow> nat \<Rightarrow> Cell list \<Rightarrow> exn + Cell list" where
  "updatedCells st i [] = Inr []"
| "updatedCells st i (c # cs) =
     (if cell_id c = i then
        (if truthy (cell_value c) then Inl (GameError CELL_ALREADY_HAS_VALUE)
         else
           (case updatedCells st i cs of
              Inl e \<Rightarrow> Inl e
            | Inr cs' \<Rightarrow> Inr (c\<lparr>cell_value := (if st = X_turn then MarkX else MarkO)\<rparr> # cs')))
      else
        (case updatedCells st i cs of
           Inl e \<Rightarrow> Inl e
         | Inr cs' \<Rightarrow> Inr (c # cs')))"

text \<open>
  The \<^verbatim>\<open>try\<close> block of \<^verbatim>\<open>makeTurn\<close>: \<open>Inl\<close> is the exception thrown, \<open>Inr\<close> the
  session after all the setters have run. Every \<^verbatim>\<open>throw\<close> (and the call of
  \<^verbatim>\<open>checkWinCondition\<close>) comes before the first setter. The local variable
  \<^verbatim>\<open>gameOver\<close> of the source is \<open>won\<close> as \<^verbatim>\<open>checkWinCondition\<close> returns it and
  \<open>over\<close> after the assignment of the stalemate case; \<open>ucs\<close> is the local
  \<^verbatim>\<open>updatedCells\<close>.
\<close>

definition makeTurn_try :: "Session \<Rightarrow> Cell \<Rightarrow> exn + Session" where
  "makeTurn_try s cell =
     (if status s = X_won \<or> status s = O_won then
        Inl (GameError GAME_IS_OVER_CANNOT_MAKE_THE_MOVE)
      else
        (case updatedCells (status s) (cell_id cell) (cells s) of
           Inl e \<Rightarrow> Inl e
         | Inr ucs \<Rightarrow>
            (case checkWinCondition ucs of
               Inl e \<Rightarrow> Inl e
             | Inr won \<Rightarrow>
                (let updatedStatus0 =
                       (case won of
                          Some w \<Rightarrow> w
                        | None \<Rightarrow> if status s = X_turn then O_turn else X_turn);
                     updatedMoveId = moveId s + 1;
                     stalemate = (updatedMoveId = 9 \<and> won = None);
                     over = (if stalemate then Some Stalemate else won);
                     updatedStatus = (if stalemate then Stalemate else updatedStatus0);
                     label =
                       (if over \<noteq> None
                        then Some (''Go to game over: '' @ status_text updatedStatus)
                        else None);
                     updatedMoves =
                       take updatedMoveId (moves s)
                       @ [createMove updatedMoveId ucs updatedStatus label]
                 in Inr \<lparr>status = updatedStatus,
                         moves = updatedMoves,
                         cells = ucs,
                         moveId = updatedMoveId,
                         gameOver = (over \<noteq> None)\<rparr>))))"

text \<open>
  \<^verbatim>\<open>makeTurn\<close> with its \<^verbatim>\<open>catch\<close>: the session afterwards and the text of the alert
  shown, if any. A \<^verbatim>\<open>GameError\<close> alerts its message; any other exception is
  swallowed. A thrown exception leaves the session as it was.
\<close>

definition makeTurn :: "Session \<Rightarrow> Cell \<Rightarrow> Session \<times> string option" where
  "makeTurn s cell =
     (case makeTurn_try s cell of
        Inl (GameError k) \<Rightarrow> (s, Some (GAME_ERRORS k))
      | Inl TypeError \<Rightarrow> (s, None)
      | Inr s' \<Rightarrow>
         (s', if gameOver s'
              then Some (''Game is over! '' @ status_text (status s'))
              else None))"

subsection \<open>Sessions the user can reach\<close>

text \<open>
  The board offers the cells of the current board to click, the history list offers
  the entries of the log, and the new-game button starts over (the button is shown while
  the game-over flag is set; the rule allows a new game in any session, which covers it).
\<close>

inductive reachable :: "Session \<Rightarrow> bool" where
  start: "reachable initial"
| turn: "reachable s \<Longrightarrow> c \<in> set (cells s) \<Longrightarrow> reachable (fst (makeTurn s c))"
| jump: "reachable s \<Longrightarrow> e \<in> set (moves s) \<Longrightarrow> reachable (goToMove e s)"
| fresh: "reachable s \<Longrightarrow> reachable (startNewGame s)"

text \<open>
  Clicking the cells shown with the given identifiers, one after the other: the board
  component hands the clicked cell of the current board to \<^verbatim>\<open>makeTurn\<close>. A
  rejected click leaves the session as it is and the next click follows.
\<close>

fun clicks :: "Session \<Rightarrow> nat list \<Rightarrow> Session" where
  "clicks s [] = s"
| "clicks s (i # is) =
     (case find (\<lambda>c. cell_id c = i) (cells s) of
        None \<Rightarrow> clicks s is
      | Some c \<Rightarrow> clicks (fst (makeTurn s c)) is)"

text \<open>A sequence of legal moves: every click of the sequence is accepted.\<close>

fun playAll :: "Session \<Rightarrow> nat list \<Rightarrow> Session option" where
  "playAll s [] = Some s"
| "playAll s (i # is) =
     (case find (\<lambda>c. cell_id c = i) (cells s) of
        None \<Rightarrow> None
      | Some c \<Rightarrow>
         (case makeTurn_try s c of
            Inl e \<Rightarrow> None
          | Inr s' \<Rightarrow> playAll s' is))"

subsection \<open>Properties of boards\<close>

text \<open>The number of non-empty cells and of empty cells of a board.\<close>

definition filled :: "Cell list \<Rightarrow> nat" where
  "filled cs = length (filter (\<lambda>c. cell_value c \<noteq> Null) cs)"

definition empties :: "Cell list \<Rightarrow> nat" where
  "empties cs = length (filter (\<lambda>c. cell_value c = Null) cs)"

text \<open>
  The values the spec's data model has (empty, or the mark of a player): no cell holds a
  number.
\<close>

definition marks_only :: "Cell list \<Rightarrow> bool" where
  "marks_only cs =
     list_all (\<lambda>c. cell_value c = MarkX \<or> cell_value c = MarkO \<or> cell_value c = Null) cs"

text \<open>Each identifier 1..9 appears exactly once.\<close>

definition each_id_once :: "Cell list \<Rightarrow> bool" where
  "each_id_once cs =
     list_all (\<lambda>i. length (filter (\<lambda>c. cell_id c = i) cs) = 1) [1, 2, 3, 4, 5, 6, 7, 8, 9]"

text \<open>The boards the program builds: the nine identifiers in their fixed order.\<close>

definition well_formed :: "Cell list \<Rightarrow> bool" where
  "well_formed cs = (map cell_id cs = [1, 2, 3, 4, 5, 6, 7, 8, 9])"

subsection \<open>The invariant of the reachable sessions\<close>

definition entry_ok :: "nat \<Rightarrow> MoveHistoryEntry \<Rightarrow> bool" where
  "entry_ok i e =
     (move_id e = i \<and> well_formed (move_cells e) \<and> marks_only (move_cells e) \<and>
      filled (move_cells e) = i \<and> (move_status e = Stalemate \<longrightarrow> i = 9))"

definition session_inv :: "Session \<Rightarrow> bool" where
  "session_inv s =
     (moveId s < length (moves s) \<and>
      (\<forall>i < length (moves s). entry_ok i (moves s ! i)) \<and>
      (\<forall>i. Suc i < length (moves s) \<longrightarrow>
           move_status (moves s ! i) = X_turn \<or> move_status (moves s ! i) = O_turn) \<and>
      cells s = move_cells (moves s ! moveId s) \<and>
      status s = move_status (moves s ! moveId s) \<and>
      moves s ! 0 = createMove 0 createCells X_turn None)"

subsection \<open>Properties of sessions\<close>

text \<open>
  The current board and status are the snapshot of the history entry at the current
  move index (and that entry exists).
\<close>

definition current_is_snapshot :: "Session \<Rightarrow> bool" where
  "current_is_snapshot s =
     (moveId s < length (moves s) \<and>
      cells s = move_cells (moves s ! moveId s) \<and>
      status s = move_status (moves s ! moveId s))"

subsection \<open>The win detector as the spec words it\<close>

text \<open>The eight lines of the grid: the rows, then the columns, then the diagonals.\<close>

definition rows :: "(nat \<times> nat \<times> nat) list" where
  "rows = [(1, 2, 3), (4, 5, 6), (7, 8, 9)]"

definition columns :: "(nat \<times> nat \<times> nat) list" where
  "columns = [(1, 4, 7), (2, 5, 8), (3, 6, 9)]"

definition diagonals :: "(nat \<times> nat \<times> nat) list" where
  "diagonals = [(1, 5, 9), (3, 5, 7)]"

text \<open>The three cell values of a line are equal and non-empty.\<close>

definition three_equal_nonempty :: "Cell list \<Rightarrow> nat \<times> nat \<times> nat \<Rightarrow> bool" where
  "three_equal_nonempty cs l =
     (case l of (i0, i1, i2) \<Rightarrow>
        cellValue cs i0 = cellValue cs i1 \<and> cellValue cs i1 = cellValue cs i2 \<and>
        cellValue cs i0 \<noteq> None \<and> cellValue cs i0 \<noteq> Some Null)"

text \<open>The win status of the player owning a mark.\<close>

fun win_status :: "CellValue option \<Rightarrow> GameStatus option" where
  "win_status (Some MarkX) = Some X_won"
| "win_status (Some MarkO) = Some O_won"
| "win_status _ = None"

text \<open>
  \<open>evaluate\<close> follows the spec: the first line, in the order rows, columns, diagonals,
  whose three values are equal and non-empty decides, and the result is the win status
  of the owner of its marks; with no such line the result is none.
\<close>

definition evaluate :: "Cell list \<Rightarrow> GameStatus option" where
  "evaluate cs =
     (case find (three_equal_nonempty cs) (rows @ columns @ diagonals) of
        None \<Rightarrow> None
      | Some (i0, i1, i2) \<Rightarrow> win_status (cellValue cs i0))"

text \<open>A player's mark is on all three cells of a line.\<close>

definition holds_line :: "Cell list \<Rightarrow> nat \<times> nat \<times> nat \<Rightarrow> CellValue \<Rightarrow> bool" where
  "holds_line cs l p =
     (case l of (i0, i1, i2) \<Rightarrow>
        cellValue cs i0 = Some p \<and> cellValue cs i1 = Some p \<and> cellValue cs i2 = Some p)"

text \<open>Every identifier of a line has a cell on the board.\<close>

definition line_present :: "Cell list \<Rightarrow> nat \<times> nat \<times> nat \<Rightarrow> bool" where
  "line_present cs l =
     (case l of (i0, i1, i2) \<Rightarrow>
        cellValue cs i0 \<noteq> None \<and> cellValue cs i1 \<noteq> None \<and> cellValue cs i2 \<noteq> None)"

text \<open>A board on which both players hold a line: O the first row, X the second.\<close>

definition two_lines :: "Cell list" where
  "two_lines =
     [\<lparr>cell_id = 1, cell_value = MarkO\<rparr>, \<lparr>cell_id = 2, cell_value = MarkO\<rparr>,
      \<lparr>cell_id = 3, cell_value = MarkO\<rparr>, \<lparr>cell_id = 4, cell_value = MarkX\<rparr>,
      \<lparr>cell_id = 5, cell_value = MarkX\<rparr>, \<lparr>cell_id = 6, cell_value = MarkX\<rparr>,
      \<lparr>cell_id = 7, cell_value = Null\<rparr>, \<lparr>cell_id = 8, cell_value = Null\<rparr>,
      \<lparr>cell_id = 9, cell_value = Null\<rparr>]"

section \<open>Lemmas\<close>

subsection \<open>Updating the clicked cell\<close>

lemma updatedCells_ids:
  "updatedCells st i cs = Inr ucs \<Longrightarrow> map cell_id ucs = map cell_id cs"
  by (induction cs arbitrary: ucs) (auto split: if_splits sum.splits)

lemma updatedCells_marks_only:
  "updatedCells st i cs = Inr ucs \<Longrightarrow> marks_only cs \<Longrightarrow> marks_only ucs"
  by (induction cs arbitrary: ucs) (auto simp: marks_only_def split: if_splits sum.splits)

lemma updatedCells_absent:
  "i \<notin> cell_id ` set cs \<Longrightarrow> updatedCells st i cs = Inr cs"
  by (induction cs) auto

lemma updatedCells_filled:
  "updatedCells st i cs = Inr ucs \<Longrightarrow> marks_only cs \<Longrightarrow> distinct (map cell_id cs) \<Longrightarrow>
   i \<in> cell_id ` set cs \<Longrightarrow> filled ucs = Suc (filled cs)"
proof (induction cs arbitrary: ucs)
  case Nil
  then show ?case by simp
next
  case (Cons c cs)
  show ?case
  proof (cases "cell_id c = i")
    case True
    with Cons.prems have notin: "i \<notin> cell_id ` set cs" by auto
    from True Cons.prems(1) have f: "\<not> truthy (cell_value c)" by (auto split: if_splits)
    with Cons.prems(2) have n: "cell_value c = Null" by (cases "cell_value c") (auto simp: marks_only_def)
    from True f Cons.prems(1) updatedCells_absent[OF notin, of st]
    have "ucs = c\<lparr>cell_value := (if st = X_turn then MarkX else MarkO)\<rparr> # cs" by auto
    with n show ?thesis by (simp add: filled_def)
  next
    case False
    with Cons.prems obtain cs' where r: "updatedCells st i cs = Inr cs'" and u: "ucs = c # cs'"
      by (auto split: sum.splits)
    from False Cons.prems have "filled cs' = Suc (filled cs)"
      using Cons.IH[OF r] by (auto simp: marks_only_def)
    with u show ?thesis by (simp add: filled_def)
  qed
qed

lemma updatedCells_occupied:
  "c \<in> set cs \<Longrightarrow> cell_id c = i \<Longrightarrow> truthy (cell_value c) \<Longrightarrow>
   updatedCells st i cs = Inl (GameError CELL_ALREADY_HAS_VALUE)"
proof (induction cs)
  case Nil
  then show ?case by simp
next
  case (Cons d ds)
  then show ?case by (cases "updatedCells st i ds") auto
qed

lemma checkLines_result:
  "checkLines cs ls = Inr (Some w) \<Longrightarrow> w = X_won \<or> w = O_won"
proof (induction ls)
  case Nil
  then show ?case by simp
next
  case (Cons l ls)
  obtain i0 i1 i2 where l: "l = (i0, i1, i2)" by (cases l) auto
  show ?case
  proof (cases "checkLines cs (l # ls) = checkLines cs ls")
    case True
    with Cons show ?thesis by simp
  next
    case False
    then have "checkLines cs (l # ls) = Inl TypeError \<or> checkLines cs (l # ls) = Inr (Some O_won)
       \<or> checkLines cs (l # ls) = Inr (Some X_won)"
      unfolding l by (simp split: option.splits if_splits)
    with Cons.prems show ?thesis by auto
  qed
qed


subsection \<open>The invariant holds in every reachable session\<close>

lemma createCells_eq:
  "createCells = map (\<lambda>i. \<lparr>cell_id = i, cell_value = Null\<rparr>) [1, 2, 3, 4, 5, 6, 7, 8, 9]"
  by (simp add: createCells_def upt_rec)

lemma entry_ok_start: "entry_ok 0 (createMove 0 createCells X_turn None)"
  by (simp add: entry_ok_def createMove_def createCells_eq well_formed_def marks_only_def
      filled_def)

lemma inv_initial: "session_inv initial"
  using entry_ok_start by (simp add: session_inv_def initial_def createMove_def)

lemma inv_startNewGame: "session_inv (startNewGame s)"
  using entry_ok_start by (simp add: session_inv_def startNewGame_def createMove_def)

lemma inv_goToMove:
  assumes "session_inv s" and "e \<in> set (moves s)"
  shows "session_inv (goToMove e s)"
proof -
  from assms(2) obtain i where i: "i < length (moves s)" and e: "e = moves s ! i"
    by (auto simp: in_set_conv_nth)
  from assms(1) i e have "move_id e = i" by (simp add: session_inv_def entry_ok_def)
  with assms(1) i e show ?thesis by (simp add: session_inv_def goToMove_def)
qed

lemma makeTurn_try_InrE:
  assumes "makeTurn_try s c = Inr s'"
  obtains ucs won where
    "status s \<noteq> X_won" and "status s \<noteq> O_won" and
    "updatedCells (status s) (cell_id c) (cells s) = Inr ucs" and
    "checkWinCondition ucs = Inr won" and
    "cells s' = ucs" and
    "moveId s' = moveId s + 1" and
    "status s' =
       (case won of
          Some w \<Rightarrow> w
        | None \<Rightarrow> if moveId s + 1 = 9 then Stalemate
                  else if status s = X_turn then O_turn else X_turn)" and
    "\<exists>label. moves s' =
       take (moveId s + 1) (moves s) @ [createMove (moveId s + 1) ucs (status s') label]" and
    "gameOver s' = (won \<noteq> None \<or> moveId s + 1 = 9)"
proof -
  from assms have a: "status s \<noteq> X_won" "status s \<noteq> O_won"
    by (auto simp: makeTurn_try_def split: if_splits)
  with assms obtain ucs where u: "updatedCells (status s) (cell_id c) (cells s) = Inr ucs"
    by (cases "updatedCells (status s) (cell_id c) (cells s)") (auto simp: makeTurn_try_def)
  with assms a obtain won where w: "checkWinCondition ucs = Inr won"
    by (cases "checkWinCondition ucs") (auto simp: makeTurn_try_def)
  show ?thesis
  proof (rule that[OF a u w])
    show "cells s' = ucs"
      using assms a u w by (auto simp: makeTurn_try_def Let_def)
    show "moveId s' = moveId s + 1"
      using assms a u w by (auto simp: makeTurn_try_def Let_def)
    show "status s' = (case won of Some w \<Rightarrow> w
        | None \<Rightarrow> if moveId s + 1 = 9 then Stalemate
                  else if status s = X_turn then O_turn else X_turn)"
      using assms a u w by (cases won) (auto simp: makeTurn_try_def Let_def)
    show "\<exists>label. moves s' =
       take (moveId s + 1) (moves s) @ [createMove (moveId s + 1) ucs (status s') label]"
      using assms a u w by (cases won) (auto simp: makeTurn_try_def Let_def)
    show "gameOver s' = (won \<noteq> None \<or> moveId s + 1 = 9)"
      using assms a u w by (cases won) (auto simp: makeTurn_try_def Let_def split: if_splits)
  qed
qed


lemma well_formed_length: "well_formed cs \<Longrightarrow> length cs = 9"
proof -
  assume "well_formed cs"
  then have "length (map cell_id cs) = 9" by (simp add: well_formed_def)
  then show ?thesis by simp
qed

lemma filled_all:
  "filled cs = length cs \<Longrightarrow> c \<in> set cs \<Longrightarrow> cell_value c \<noteq> Null"
proof -
  assume f: "filled cs = length cs" and c: "c \<in> set cs"
  from f have "filter (\<lambda>c. cell_value c \<noteq> Null) cs = cs"
    unfolding filled_def by (metis length_filter_less less_irrefl filter_True)
  then have "set cs = {c \<in> set cs. cell_value c \<noteq> Null}"
    by (metis set_filter)
  with c show ?thesis by blast
qed

lemma marks_only_truthy:
  "marks_only cs \<Longrightarrow> c \<in> set cs \<Longrightarrow> cell_value c \<noteq> Null \<Longrightarrow> truthy (cell_value c)"
  by (auto simp: marks_only_def list_all_iff)

text \<open>A move is accepted only when a player is to move.\<close>

lemma accepted_status:
  assumes "session_inv s" and "c \<in> set (cells s)" and "makeTurn_try s c = Inr s'"
  shows "status s = X_turn \<or> status s = O_turn"
proof (rule ccontr)
  assume n: "\<not> ?thesis"
  from assms(3) obtain ucs where w: "status s \<noteq> X_won" "status s \<noteq> O_won"
    and u: "updatedCells (status s) (cell_id c) (cells s) = Inr ucs"
    by (rule makeTurn_try_InrE)
  from n w have st: "status s = Stalemate" by (cases "status s") auto
  from assms(1) have ok: "entry_ok (moveId s) (moves s ! moveId s)"
    and cs: "cells s = move_cells (moves s ! moveId s)"
    and ss: "status s = move_status (moves s ! moveId s)"
    by (simp_all add: session_inv_def)
  from ok st ss cs have m: "marks_only (cells s)" and "filled (cells s) = 9" and "well_formed (cells s)"
    by (auto simp: entry_ok_def)
  then have "filled (cells s) = length (cells s)" by (simp add: well_formed_length)
  then have "cell_value c \<noteq> Null" using assms(2) by (rule filled_all)
  with m assms(2) have "truthy (cell_value c)" by (simp add: marks_only_truthy)
  with assms(2) have "updatedCells (status s) (cell_id c) (cells s) = Inl (GameError CELL_ALREADY_HAS_VALUE)"
    by (simp add: updatedCells_occupied)
  with u show False by simp
qed

lemma inv_makeTurn_try:
  assumes i: "session_inv s" and c: "c \<in> set (cells s)" and t: "makeTurn_try s c = Inr s'"
  shows "session_inv s'"
proof -
  let ?k = "moveId s"
  from t obtain ucs won label where
    u: "updatedCells (status s) (cell_id c) (cells s) = Inr ucs" and
    w: "checkWinCondition ucs = Inr won" and
    c': "cells s' = ucs" and
    k': "moveId s' = ?k + 1" and
    st': "status s' = (case won of Some w \<Rightarrow> w
        | None \<Rightarrow> if ?k + 1 = 9 then Stalemate
                  else if status s = X_turn then O_turn else X_turn)" and
    m': "moves s' = take (?k + 1) (moves s) @ [createMove (?k + 1) ucs (status s') label]"
    by (rule makeTurn_try_InrE) blast
  from i have klt: "?k < length (moves s)"
    and oks: "\<And>j. j < length (moves s) \<Longrightarrow> entry_ok j (moves s ! j)"
    and nt: "\<And>j. Suc j < length (moves s) \<Longrightarrow>
        move_status (moves s ! j) = X_turn \<or> move_status (moves s ! j) = O_turn"
    and cs: "cells s = move_cells (moves s ! ?k)"
    and ss: "status s = move_status (moves s ! ?k)"
    and m0: "moves s ! 0 = createMove 0 createCells X_turn None"
    by (simp_all add: session_inv_def)
  from klt have len: "length (moves s') = ?k + 2" by (simp add: m')
  have old: "moves s' ! j = moves s ! j" if "j \<le> ?k" for j
    using that klt by (simp add: m' nth_append)
  have new: "moves s' ! (?k + 1) = createMove (?k + 1) ucs (status s') label"
    using klt by (simp add: m' nth_append)
  from oks[OF klt] cs have wf: "well_formed (cells s)" and mo: "marks_only (cells s)"
    and fl: "filled (cells s) = ?k"
    by (simp_all add: entry_ok_def)
  from wf have d: "distinct (map cell_id (cells s))" by (simp add: well_formed_def)
  from c have cin: "cell_id c \<in> cell_id ` set (cells s)" by simp
  have wf': "well_formed ucs" using wf updatedCells_ids[OF u] by (simp add: well_formed_def)
  have mo': "marks_only ucs" using updatedCells_marks_only[OF u mo] .
  have fl': "filled ucs = ?k + 1" using updatedCells_filled[OF u mo d cin] fl by simp
  have sm: "status s' = Stalemate \<Longrightarrow> ?k + 1 = 9"
    using st' checkLines_result[of ucs winConditions] w
    by (cases won) (auto simp: checkWinCondition_def split: if_splits)
  have oknew: "entry_ok (?k + 1) (createMove (?k + 1) ucs (status s') label)"
    using wf' mo' fl' sm by (simp add: entry_ok_def createMove_def)
  have turn: "status s = X_turn \<or> status s = O_turn"
    using accepted_status[OF i c t] .
  show ?thesis
    unfolding session_inv_def
  proof (intro conjI allI impI)
    show "moveId s' < length (moves s')" by (simp add: k' len)
  next
    fix j assume "j < length (moves s')"
    then have "j \<le> ?k \<or> j = ?k + 1" using len by arith
    then show "entry_ok j (moves s' ! j)"
    proof
      assume "j \<le> ?k"
      then show ?thesis using old[of j] oks[of j] klt by simp
    next
      assume "j = ?k + 1"
      then show ?thesis using new oknew by simp
    qed
  next
    fix j assume "Suc j < length (moves s')"
    then have "j < ?k \<or> j = ?k" using len by arith
    then show "move_status (moves s' ! j) = X_turn \<or> move_status (moves s' ! j) = O_turn"
    proof
      assume "j < ?k"
      then show ?thesis using old[of j] nt[of j] klt by simp
    next
      assume "j = ?k"
      then show ?thesis using old[of j] turn ss by simp
    qed
  next
    show "cells s' = move_cells (moves s' ! moveId s')"
      using new by (simp add: k' c' createMove_def)
  next
    show "status s' = move_status (moves s' ! moveId s')"
      using new by (simp add: k' createMove_def)
  next
    show "moves s' ! 0 = createMove 0 createCells X_turn None"
      using old[of 0] m0 by simp
  qed
qed

lemma makeTurn_cases:
  "fst (makeTurn s c) = s \<or> (\<exists>s'. makeTurn_try s c = Inr s' \<and> fst (makeTurn s c) = s')"
  by (cases "makeTurn_try s c") (auto simp: makeTurn_def split: exn.splits)

lemma inv_makeTurn: "session_inv s \<Longrightarrow> c \<in> set (cells s) \<Longrightarrow> session_inv (fst (makeTurn s c))"
  using makeTurn_cases[of s c] inv_makeTurn_try[of s c] by auto

lemma reachable_inv: "reachable s \<Longrightarrow> session_inv s"
  by (induction rule: reachable.induct)
    (simp_all add: inv_initial inv_makeTurn inv_goToMove inv_startNewGame)

subsection \<open>Running clicks\<close>

lemma makeTurn_accept: "makeTurn_try s c = Inr s' \<Longrightarrow> fst (makeTurn s c) = s'"
  by (simp add: makeTurn_def)

lemma makeTurn_reject: "makeTurn_try s c = Inl x \<Longrightarrow> fst (makeTurn s c) = s"
  by (cases x) (simp_all add: makeTurn_def)

lemma find_cell_in: "find (\<lambda>c. cell_id c = i) cs = Some c \<Longrightarrow> c \<in> set cs \<and> cell_id c = i"
  by (auto simp: find_Some_iff)

lemma reachable_clicks: "reachable s \<Longrightarrow> reachable (clicks s is)"
proof (induction "is" arbitrary: s)
  case Nil
  then show ?case by simp
next
  case (Cons i "is")
  show ?case
  proof (cases "find (\<lambda>c. cell_id c = i) (cells s)")
    case None
    with Cons show ?thesis by simp
  next
    case (Some c)
    then have "c \<in> set (cells s)" using find_cell_in by blast
    with Cons.prems have "reachable (fst (makeTurn s c))" by (rule reachable.turn)
    then have "reachable (clicks (fst (makeTurn s c)) is)" by (rule Cons.IH)
    with Some show ?thesis by simp
  qed
qed

lemma inv_snapshot: "session_inv s \<Longrightarrow> current_is_snapshot s"
  by (simp add: session_inv_def current_is_snapshot_def)

section \<open>The claims\<close>

text \<open>
  C2. After every transition the current board and the current status are the snapshot
  stored in the history entry at the current move index: this holds in every session the
  user can reach, and so after an accepted (or rejected) move on a cell of the board,
  after the selection of an entry of the log, and after a new game.
\<close>

theorem current_is_snapshot_after_every_transition:
  assumes "reachable s"
  shows "current_is_snapshot s \<and>
         (\<forall>c \<in> set (cells s). current_is_snapshot (fst (makeTurn s c))) \<and>
         (\<forall>e \<in> set (moves s). current_is_snapshot (goToMove e s)) \<and>
         current_is_snapshot (startNewGame s)"
proof -
  from assms have i: "session_inv s" by (rule reachable_inv)
  have "current_is_snapshot (fst (makeTurn s c))" if "c \<in> set (cells s)" for c
    using inv_makeTurn[OF i that] by (rule inv_snapshot)
  moreover have "current_is_snapshot (goToMove e s)" if "e \<in> set (moves s)" for e
    using inv_goToMove[OF i that] by (rule inv_snapshot)
  moreover have "current_is_snapshot s" using i by (rule inv_snapshot)
  moreover have "current_is_snapshot (startNewGame s)"
    using inv_startNewGame by (rule inv_snapshot)
  ultimately show ?thesis by blast
qed

theorem current_is_snapshot_witness:
  "reachable (clicks initial [1, 2, 4]) \<and>
   current_is_snapshot (clicks initial [1, 2, 4]) \<and>
   moveId (clicks initial [1, 2, 4]) = 3 \<and>
   current_is_snapshot
     (fst (makeTurn (clicks initial [1, 2, 4]) \<lparr>cell_id = 5, cell_value = Null\<rparr>)) \<and>
   current_is_snapshot
     (goToMove (moves (clicks initial [1, 2, 4]) ! 1) (clicks initial [1, 2, 4])) \<and>
   moveId (goToMove (moves (clicks initial [1, 2, 4]) ! 1) (clicks initial [1, 2, 4])) = 1 \<and>
   current_is_snapshot (startNewGame (clicks initial [1, 2, 4]))"
proof -
  let ?s = "clicks initial [1, 2, 4]"
  have r: "reachable ?s" by (rule reachable_clicks) (rule reachable.start)
  have c: "\<lparr>cell_id = 5, cell_value = Null\<rparr> \<in> set (cells ?s)" by code_simp
  have e: "moves ?s ! 1 \<in> set (moves ?s)" by code_simp
  have m: "moveId ?s = 3" by code_simp
  have m': "moveId (goToMove (moves ?s ! 1) ?s) = 1" by code_simp
  from current_is_snapshot_after_every_transition[OF r] c e
  have "current_is_snapshot ?s"
    and "current_is_snapshot (fst (makeTurn ?s \<lparr>cell_id = 5, cell_value = Null\<rparr>))"
    and "current_is_snapshot (goToMove (moves ?s ! 1) ?s)"
    and "current_is_snapshot (startNewGame ?s)"
    by blast+
  with r m m' show ?thesis by blast
qed

subsection \<open>Rejected moves\<close>

lemma makeTurn_after_win:
  assumes "status s = X_won \<or> status s = O_won"
  shows "makeTurn_try s c = Inl (GameError GAME_IS_OVER_CANNOT_MAKE_THE_MOVE) \<and>
         makeTurn s c = (s, Some ''The Game is already over. You cannot make the move'')"
  using assms by (auto simp: makeTurn_try_def makeTurn_def)

lemma makeTurn_occupied:
  assumes "status s \<noteq> X_won" and "status s \<noteq> O_won"
    and "d \<in> set (cells s)" and "cell_id d = cell_id c" and "truthy (cell_value d)"
  shows "makeTurn_try s c = Inl (GameError CELL_ALREADY_HAS_VALUE) \<and>
         makeTurn s c = (s, Some ''This cell already has value'')"
proof -
  from assms(3,4,5)
  have "updatedCells (status s) (cell_id c) (cells s) = Inl (GameError CELL_ALREADY_HAS_VALUE)"
    by (simp add: updatedCells_occupied)
  with assms(1,2) show ?thesis by (simp add: makeTurn_try_def makeTurn_def)
qed

lemma stalemate_board_full:
  assumes "session_inv s" and "status s = Stalemate" and "c \<in> set (cells s)"
  shows "truthy (cell_value c)"
proof -
  from assms(1) have ok: "entry_ok (moveId s) (moves s ! moveId s)"
    and cs: "cells s = move_cells (moves s ! moveId s)"
    and ss: "status s = move_status (moves s ! moveId s)"
    by (simp_all add: session_inv_def)
  from ok assms(2) ss cs have m: "marks_only (cells s)" and "filled (cells s) = 9"
    and "well_formed (cells s)"
    by (auto simp: entry_ok_def)
  then have "filled (cells s) = length (cells s)" by (simp add: well_formed_length)
  then have "cell_value c \<noteq> Null" using assms(3) by (rule filled_all)
  with m assms(3) show ?thesis by (simp add: marks_only_truthy)
qed

lemma makeTurn_after_stalemate:
  assumes "reachable s" and "status s = Stalemate" and "c \<in> set (cells s)"
  shows "makeTurn_try s c = Inl (GameError CELL_ALREADY_HAS_VALUE) \<and>
         makeTurn s c = (s, Some ''This cell already has value'')"
proof -
  from assms(1) have "session_inv s" by (rule reachable_inv)
  then have "truthy (cell_value c)" using assms(2,3) by (rule stalemate_board_full)
  with assms(2,3) show ?thesis by (intro makeTurn_occupied[of s c c]) simp_all
qed

text \<open>
  C1. The claim: in every session whose status is terminal (a win of either player or a
  draw), a move on any cell is rejected with the error kind of the finished game, and the
  session stays as it is. The guard of \<^verbatim>\<open>makeTurn\<close> tests the two win statuses only.
  After the nine moves 1, 2, 3, 5, 4, 6, 8, 7, 9 the status is \<^verbatim>\<open>Stalemate\<close> and the
  game-over flag is set; a click on cell 1 is then rejected with
  \<^verbatim>\<open>CELL_ALREADY_HAS_VALUE\<close>, not with
  \<^verbatim>\<open>GAME_IS_OVER_CANNOT_MAKE_THE_MOVE\<close>. The session is unchanged.
  (\<open>makeTurn_after_win\<close> is the part of the claim that holds, and
  \<open>makeTurn_after_stalemate\<close> the behaviour in every reachable drawn session.)
\<close>

theorem stalemate_click_is_cell_error:
  "status (clicks initial [1, 2, 3, 5, 4, 6, 8, 7, 9]) = Stalemate \<and>
   gameOver (clicks initial [1, 2, 3, 5, 4, 6, 8, 7, 9]) = True \<and>
   \<lparr>cell_id = 1, cell_value = MarkX\<rparr> \<in> set (cells (clicks initial [1, 2, 3, 5, 4, 6, 8, 7, 9])) \<and>
   makeTurn_try (clicks initial [1, 2, 3, 5, 4, 6, 8, 7, 9]) \<lparr>cell_id = 1, cell_value = MarkX\<rparr>
     = Inl (GameError CELL_ALREADY_HAS_VALUE) \<and>
   makeTurn (clicks initial [1, 2, 3, 5, 4, 6, 8, 7, 9]) \<lparr>cell_id = 1, cell_value = MarkX\<rparr>
     = (clicks initial [1, 2, 3, 5, 4, 6, 8, 7, 9], Some ''This cell already has value'')"
  by code_simp

text \<open>
  C7. In a reachable session, selecting the entry with a sequence number \<open>n\<close> present in
  the log sets the board, the status and the move index to the values stored in that
  entry (the index becomes \<open>n\<close>) and leaves the log as it is; selecting the same number
  again changes nothing; and selecting number 0 gives the all-empty board with X to move.
\<close>

theorem goToMove_selects_entry:
  assumes "reachable s" and "n < length (moves s)"
  shows "cells (goToMove (moves s ! n) s) = move_cells (moves s ! n) \<and>
         status (goToMove (moves s ! n) s) = move_status (moves s ! n) \<and>
         moveId (goToMove (moves s ! n) s) = n \<and>
         moves (goToMove (moves s ! n) s) = moves s \<and>
         goToMove (moves (goToMove (moves s ! n) s) ! n) (goToMove (moves s ! n) s)
           = goToMove (moves s ! n) s \<and>
         (n = 0 \<longrightarrow> cells (goToMove (moves s ! n) s) = createCells \<and>
                   empties (cells (goToMove (moves s ! n) s)) = 9 \<and>
                   status (goToMove (moves s ! n) s) = X_turn)"
proof -
  from assms(1) have i: "session_inv s" by (rule reachable_inv)
  with assms(2) have id: "move_id (moves s ! n) = n" by (simp add: session_inv_def entry_ok_def)
  from i have z: "moves s ! 0 = createMove 0 createCells X_turn None" by (simp add: session_inv_def)
  have e: "empties createCells = 9" by (simp add: createCells_eq empties_def)
  show ?thesis using id z e by (auto simp: goToMove_def createMove_def)
qed

theorem goToMove_selects_entry_witness:
  "reachable (clicks initial [5, 1, 9]) \<and>
   (2::nat) < length (moves (clicks initial [5, 1, 9])) \<and>
   moveId (goToMove (moves (clicks initial [5, 1, 9]) ! 2) (clicks initial [5, 1, 9])) = 2 \<and>
   moves (goToMove (moves (clicks initial [5, 1, 9]) ! 2) (clicks initial [5, 1, 9]))
     = moves (clicks initial [5, 1, 9]) \<and>
   reachable (clicks initial [5, 1, 9]) \<and>
   cells (goToMove (moves (clicks initial [5, 1, 9]) ! 0) (clicks initial [5, 1, 9])) = createCells \<and>
   status (goToMove (moves (clicks initial [5, 1, 9]) ! 0) (clicks initial [5, 1, 9])) = X_turn"
proof -
  let ?s = "clicks initial [5, 1, 9]"
  have r: "reachable ?s" by (rule reachable_clicks) (rule reachable.start)
  have l2: "(2::nat) < length (moves ?s)" by code_simp
  have l0: "(0::nat) < length (moves ?s)" by code_simp
  from goToMove_selects_entry[OF r l2] goToMove_selects_entry[OF r l0] r l2
  show ?thesis by blast
qed

text \<open>
  C10. Selecting a history entry leaves the game-over flag as it is. A rejected move
  leaves the whole session as it is; an accepted move sets the flag to whether the new
  status is terminal, and a new game clears it. So in a reachable session with the flag
  set, jumping to an entry that is not the last one of the log gives a status with a
  player to move and a board with as many marks as the entry's number, and the flag stays
  set.
\<close>

theorem goToMove_keeps_gameOver:
  "gameOver (goToMove e s) = gameOver s \<and>
   (makeTurn_try s c = Inl x \<longrightarrow> fst (makeTurn s c) = s) \<and>
   (makeTurn_try s c = Inr s' \<longrightarrow>
      gameOver s' = (status s' = X_won \<or> status s' = O_won \<or> status s' = Stalemate)) \<and>
   gameOver (startNewGame s) = False \<and>
   (reachable s \<and> gameOver s \<and> Suc n < length (moves s) \<longrightarrow>
      gameOver (goToMove (moves s ! n) s) \<and>
      (status (goToMove (moves s ! n) s) = X_turn \<or>
       status (goToMove (moves s ! n) s) = O_turn) \<and>
      filled (cells (goToMove (moves s ! n) s)) = n)"
proof (intro conjI impI)
  show "gameOver (goToMove e s) = gameOver s" by (simp add: goToMove_def)
  show "gameOver (startNewGame s) = False" by (simp add: startNewGame_def)
  show "fst (makeTurn s c) = s" if "makeTurn_try s c = Inl x"
    using that by (rule makeTurn_reject)
  show "gameOver s' = (status s' = X_won \<or> status s' = O_won \<or> status s' = Stalemate)"
    if t: "makeTurn_try s c = Inr s'"
  proof -
    from t obtain ucs won where w: "checkWinCondition ucs = Inr won"
      and st: "status s' = (case won of Some w \<Rightarrow> w
        | None \<Rightarrow> if moveId s + 1 = 9 then Stalemate
                  else if status s = X_turn then O_turn else X_turn)"
      and g: "gameOver s' = (won \<noteq> None \<or> moveId s + 1 = 9)"
      by (rule makeTurn_try_InrE)
    show ?thesis
    proof (cases won)
      case None
      with st g show ?thesis by auto
    next
      case (Some v)
      with w have "v = X_won \<or> v = O_won"
        using checkLines_result[of ucs winConditions v] by (simp add: checkWinCondition_def)
      with Some st g show ?thesis by auto
    qed
  qed
next
  assume a: "reachable s \<and> gameOver s \<and> Suc n < length (moves s)"
  then have i: "session_inv s" by (simp add: reachable_inv)
  from a have n: "n < length (moves s)" by simp
  from i n have ok: "entry_ok n (moves s ! n)" by (simp add: session_inv_def)
  from i a have nt: "move_status (moves s ! n) = X_turn \<or> move_status (moves s ! n) = O_turn"
    by (simp add: session_inv_def)
  show "gameOver (goToMove (moves s ! n) s)" using a by (simp add: goToMove_def)
  show "status (goToMove (moves s ! n) s) = X_turn \<or> status (goToMove (moves s ! n) s) = O_turn"
    using nt by (simp add: goToMove_def)
  show "filled (cells (goToMove (moves s ! n) s)) = n"
    using ok by (simp add: goToMove_def entry_ok_def)
qed

theorem goToMove_keeps_gameOver_witness:
  "reachable (clicks initial [1, 2, 4, 3, 7]) \<and>
   status (clicks initial [1, 2, 4, 3, 7]) = X_won \<and>
   gameOver (clicks initial [1, 2, 4, 3, 7]) \<and>
   Suc 2 < length (moves (clicks initial [1, 2, 4, 3, 7])) \<and>
   makeTurn_try (clicks initial [1, 2, 4, 3, 7]) \<lparr>cell_id = 5, cell_value = Null\<rparr>
     = Inl (GameError GAME_IS_OVER_CANNOT_MAKE_THE_MOVE) \<and>
   fst (makeTurn (clicks initial [1, 2, 4, 3, 7]) \<lparr>cell_id = 5, cell_value = Null\<rparr>)
     = clicks initial [1, 2, 4, 3, 7] \<and>
   gameOver (goToMove (moves (clicks initial [1, 2, 4, 3, 7]) ! 2) (clicks initial [1, 2, 4, 3, 7])) \<and>
   status (goToMove (moves (clicks initial [1, 2, 4, 3, 7]) ! 2) (clicks initial [1, 2, 4, 3, 7]))
     = X_turn \<and>
   filled (cells (goToMove (moves (clicks initial [1, 2, 4, 3, 7]) ! 2)
     (clicks initial [1, 2, 4, 3, 7]))) = 2 \<and>
   makeTurn_try (clicks initial [1, 2]) \<lparr>cell_id = 4, cell_value = Null\<rparr>
     = Inr (clicks initial [1, 2, 4]) \<and>
   gameOver (clicks initial [1, 2, 4]) = False"
proof -
  let ?s = "clicks initial [1, 2, 4, 3, 7]"
  let ?c = "\<lparr>cell_id = 5, cell_value = Null\<rparr>"
  let ?x = "GameError GAME_IS_OVER_CANNOT_MAKE_THE_MOVE"
  have r: "reachable ?s" by (rule reachable_clicks) (rule reachable.start)
  have g: "gameOver ?s" by code_simp
  have w: "status ?s = X_won" by code_simp
  have l: "Suc 2 < length (moves ?s)" by code_simp
  have t: "makeTurn_try ?s ?c = Inl ?x" by code_simp
  have x: "status (goToMove (moves ?s ! 2) ?s) = X_turn" by code_simp
  have a: "makeTurn_try (clicks initial [1, 2]) \<lparr>cell_id = 4, cell_value = Null\<rparr>
     = Inr (clicks initial [1, 2, 4])" by code_simp
  have n: "status (clicks initial [1, 2, 4]) = O_turn" by code_simp
  from goToMove_keeps_gameOver[of "moves ?s ! 2" ?s ?c ?x _ 2] r g l t
  have "fst (makeTurn ?s ?c) = ?s" and "gameOver (goToMove (moves ?s ! 2) ?s)"
    and "filled (cells (goToMove (moves ?s ! 2) ?s)) = 2"
    by blast+
  moreover from goToMove_keeps_gameOver[of _ "clicks initial [1, 2]"
      "\<lparr>cell_id = 4, cell_value = Null\<rparr>" _ "clicks initial [1, 2, 4]"] a n
  have "gameOver (clicks initial [1, 2, 4]) = False" by simp
  ultimately show ?thesis using r g w l t x a by blast
qed

subsection \<open>The board and the log after a move\<close>

lemma filled_empties: "filled cs + empties cs = length cs"
  unfolding filled_def empties_def
  using sum_length_filter_compl[of "\<lambda>c. cell_value c \<noteq> Null" cs] by simp

lemma inv_board:
  assumes "session_inv s"
  shows "well_formed (cells s)" and "marks_only (cells s)" and "filled (cells s) = moveId s"
    and "empties (cells s) = 9 - moveId s"
proof -
  from assms have ok: "entry_ok (moveId s) (moves s ! moveId s)"
    and cs: "cells s = move_cells (moves s ! moveId s)"
    by (simp_all add: session_inv_def)
  from ok cs show wf: "well_formed (cells s)" and "marks_only (cells s)"
    and f: "filled (cells s) = moveId s"
    by (simp_all add: entry_ok_def)
  from wf have "length (cells s) = 9" by (rule well_formed_length)
  with f filled_empties[of "cells s"] show "empties (cells s) = 9 - moveId s" by simp
qed

lemma makeTurn_try_log:
  assumes k: "moveId s < length (moves s)" and t: "makeTurn_try s c = Inr s'"
  shows "moveId s' = moveId s + 1"
    and "length (moves s') = moveId s + 2"
    and "moves s' = take (moveId s + 1) (moves s) @ [last (moves s')]"
    and "take (moveId s + 1) (moves s') = take (moveId s + 1) (moves s)"
    and "move_id (last (moves s')) = moveId s + 1"
    and "move_cells (last (moves s')) = cells s'"
    and "move_status (last (moves s')) = status s'"
proof -
  from t obtain ucs label where
    c': "cells s' = ucs" and k': "moveId s' = moveId s + 1" and
    m': "moves s' = take (moveId s + 1) (moves s) @ [createMove (moveId s + 1) ucs (status s') label]"
    by (rule makeTurn_try_InrE) blast
  from m' have l: "last (moves s') = createMove (moveId s + 1) ucs (status s') label" by simp
  show "moveId s' = moveId s + 1" by (rule k')
  show "length (moves s') = moveId s + 2" using k by (simp add: m')
  show "moves s' = take (moveId s + 1) (moves s) @ [last (moves s')]"
    unfolding l by (rule m')
  show "take (moveId s + 1) (moves s') = take (moveId s + 1) (moves s)" using k by (simp add: m')
  show "move_id (last (moves s')) = moveId s + 1" by (simp add: l createMove_def)
  show "move_cells (last (moves s')) = cells s'" by (simp add: l c' createMove_def)
  show "move_status (last (moves s')) = status s'" by (simp add: l createMove_def)
qed

text \<open>
  C3. An accepted move made in a reachable session at move index \<open>k\<close> gives the log
  made of the entries 0..k of the old log (all \<open>k + 1\<close> of them, unchanged) followed by
  exactly one new entry, whose sequence number is \<open>k + 1\<close> and whose board and status
  are the new board and the new status; the new move index is \<open>k + 1\<close>. The log has
  \<open>k + 2\<close> entries then, so any older entry with a number above \<open>k\<close> is gone, and
  the next accepted move gets the number \<open>k + 2\<close>.
\<close>

theorem makeTurn_truncates_then_appends:
  assumes "reachable s" and "makeTurn_try s c = Inr s'"
  shows "moves s' = take (moveId s + 1) (moves s) @ [last (moves s')] \<and>
         length (take (moveId s + 1) (moves s)) = moveId s + 1 \<and>
         length (moves s') = moveId s + 2 \<and>
         (\<forall>j \<le> moveId s. moves s' ! j = moves s ! j) \<and>
         move_id (last (moves s')) = moveId s + 1 \<and>
         move_cells (last (moves s')) = cells s' \<and>
         move_status (last (moves s')) = status s' \<and>
         moveId s' = moveId s + 1 \<and>
         (\<forall>c' s''. makeTurn_try s' c' = Inr s'' \<longrightarrow>
            moveId s'' = moveId s + 2 \<and>
            move_id (last (moves s'')) = moveId s + 2 \<and>
            length (moves s'') = moveId s + 3)"
proof -
  from assms(1) have "session_inv s" by (rule reachable_inv)
  then have k: "moveId s < length (moves s)" by (simp add: session_inv_def)
  note L = makeTurn_try_log[OF k assms(2)]
  have k': "moveId s' < length (moves s')" using L(1,2) by simp
  have old: "moves s' ! j = moves s ! j" if "j \<le> moveId s" for j
  proof -
    from that have j: "j < moveId s + 1" by simp
    have "moves s' ! j = take (moveId s + 1) (moves s') ! j" using j by simp
    also have "\<dots> = take (moveId s + 1) (moves s) ! j" by (simp only: L(4))
    also have "\<dots> = moves s ! j" using j by simp
    finally show ?thesis .
  qed
  have nxt: "moveId s'' = moveId s + 2 \<and> move_id (last (moves s'')) = moveId s + 2 \<and>
      length (moves s'') = moveId s + 3" if "makeTurn_try s' c' = Inr s''" for c' s''
    using makeTurn_try_log(1,2,5)[OF k' that] L(1) by simp
  have len: "length (take (moveId s + 1) (moves s)) = moveId s + 1" using k by simp
  show ?thesis using L old nxt len by blast
qed

theorem makeTurn_truncates_then_appends_witness:
  "reachable (goToMove (moves (clicks initial [1, 2, 4, 3]) ! 1) (clicks initial [1, 2, 4, 3])) \<and>
   moveId (goToMove (moves (clicks initial [1, 2, 4, 3]) ! 1) (clicks initial [1, 2, 4, 3])) = 1 \<and>
   length (moves (goToMove (moves (clicks initial [1, 2, 4, 3]) ! 1) (clicks initial [1, 2, 4, 3]))) = 5 \<and>
   makeTurn_try (goToMove (moves (clicks initial [1, 2, 4, 3]) ! 1) (clicks initial [1, 2, 4, 3]))
      \<lparr>cell_id = 5, cell_value = Null\<rparr>
     = Inr (fst (makeTurn (goToMove (moves (clicks initial [1, 2, 4, 3]) ! 1) (clicks initial [1, 2, 4, 3]))
         \<lparr>cell_id = 5, cell_value = Null\<rparr>)) \<and>
   length (moves (fst (makeTurn (goToMove (moves (clicks initial [1, 2, 4, 3]) ! 1) (clicks initial [1, 2, 4, 3]))
         \<lparr>cell_id = 5, cell_value = Null\<rparr>))) = 3 \<and>
   moveId (fst (makeTurn (goToMove (moves (clicks initial [1, 2, 4, 3]) ! 1) (clicks initial [1, 2, 4, 3]))
         \<lparr>cell_id = 5, cell_value = Null\<rparr>)) = 2 \<and>
   move_id (last (moves (fst (makeTurn (goToMove (moves (clicks initial [1, 2, 4, 3]) ! 1) (clicks initial [1, 2, 4, 3]))
         \<lparr>cell_id = 5, cell_value = Null\<rparr>)))) = 2"
proof -
  let ?t = "clicks initial [1, 2, 4, 3]"
  let ?s = "goToMove (moves ?t ! 1) ?t"
  let ?c = "\<lparr>cell_id = 5, cell_value = Null\<rparr>"
  have "reachable ?t" by (rule reachable_clicks) (rule reachable.start)
  moreover have "moves ?t ! 1 \<in> set (moves ?t)" by code_simp
  ultimately have r: "reachable ?s" by (rule reachable.jump)
  have m: "moveId ?s = 1" by code_simp
  have l: "length (moves ?s) = 5" by code_simp
  have a: "makeTurn_try ?s ?c = Inr (fst (makeTurn ?s ?c))" by code_simp
  from makeTurn_truncates_then_appends[OF r a] m
  have "length (moves (fst (makeTurn ?s ?c))) = 3" and "moveId (fst (makeTurn ?s ?c)) = 2"
    and "move_id (last (moves (fst (makeTurn ?s ?c)))) = 2"
    by simp_all
  with r m l a show ?thesis by blast
qed

lemma checkWinCondition_result:
  "checkWinCondition cs = Inr won \<Longrightarrow> won = None \<or> won = Some X_won \<or> won = Some O_won"
  using checkLines_result[of cs winConditions] by (cases won) (auto simp: checkWinCondition_def)

text \<open>
  C4. On an accepted move in a reachable session (on a cell of the board), the win
  detector returns on the new board, and the new status follows this order of cases: a
  winner found gives that player's win status; otherwise the 9th move gives
  \<^verbatim>\<open>Stalemate\<close>; otherwise the turn passes to the other player. The move was made
  by a player to move, and the move is the 9th exactly when the new board has no empty
  cell.
\<close>

theorem makeTurn_new_status:
  assumes "reachable s" and "c \<in> set (cells s)" and "makeTurn_try s c = Inr s'"
  shows "(checkWinCondition (cells s') = Inr (Some X_won) \<or>
          checkWinCondition (cells s') = Inr (Some O_won) \<or>
          checkWinCondition (cells s') = Inr None) \<and>
         (checkWinCondition (cells s') = Inr (Some X_won) \<longrightarrow> status s' = X_won) \<and>
         (checkWinCondition (cells s') = Inr (Some O_won) \<longrightarrow> status s' = O_won) \<and>
         (checkWinCondition (cells s') = Inr None \<and> moveId s + 1 = 9 \<longrightarrow>
            status s' = Stalemate) \<and>
         (checkWinCondition (cells s') = Inr None \<and> moveId s + 1 \<noteq> 9 \<and> status s = X_turn \<longrightarrow>
            status s' = O_turn) \<and>
         (checkWinCondition (cells s') = Inr None \<and> moveId s + 1 \<noteq> 9 \<and> status s = O_turn \<longrightarrow>
            status s' = X_turn) \<and>
         (status s = X_turn \<or> status s = O_turn) \<and>
         filled (cells s') = moveId s + 1 \<and>
         ((moveId s + 1 = 9) = (empties (cells s') = 0))"
proof -
  from assms(1) have i: "session_inv s" by (rule reachable_inv)
  from i assms(2,3) have i': "session_inv s'" by (rule inv_makeTurn_try)
  from i assms(2,3) have turn: "status s = X_turn \<or> status s = O_turn" by (rule accepted_status)
  from assms(3) obtain ucs won where w: "checkWinCondition ucs = Inr won"
    and c': "cells s' = ucs" and k': "moveId s' = moveId s + 1"
    and st: "status s' = (case won of Some w \<Rightarrow> w
        | None \<Rightarrow> if moveId s + 1 = 9 then Stalemate
                  else if status s = X_turn then O_turn else X_turn)"
    by (rule makeTurn_try_InrE)
  from w c' have w': "checkWinCondition (cells s') = Inr won" by simp
  from w have r: "won = None \<or> won = Some X_won \<or> won = Some O_won"
    by (rule checkWinCondition_result)
  from inv_board(3)[OF i'] k' have f: "filled (cells s') = moveId s + 1" by simp
  from inv_board(4)[OF i'] k' have e: "empties (cells s') = 9 - (moveId s + 1)" by simp
  from f filled_empties[of "cells s'"] well_formed_length[OF inv_board(1)[OF i']]
  have le: "moveId s + 1 \<le> 9" by simp
  from e le have full: "(moveId s + 1 = 9) = (empties (cells s') = 0)" by auto
  from r show ?thesis
  proof (elim disjE)
    assume "won = None"
    with w' st turn f full show ?thesis by auto
  next
    assume "won = Some X_won"
    with w' st turn f full show ?thesis by auto
  next
    assume "won = Some O_won"
    with w' st turn f full show ?thesis by auto
  qed
qed

theorem makeTurn_new_status_witness:
  "reachable (clicks initial [1, 2, 4, 3]) \<and>
   \<lparr>cell_id = 7, cell_value = Null\<rparr> \<in> set (cells (clicks initial [1, 2, 4, 3])) \<and>
   makeTurn_try (clicks initial [1, 2, 4, 3]) \<lparr>cell_id = 7, cell_value = Null\<rparr>
     = Inr (clicks initial [1, 2, 4, 3, 7]) \<and>
   checkWinCondition (cells (clicks initial [1, 2, 4, 3, 7])) = Inr (Some X_won) \<and>
   status (clicks initial [1, 2, 4, 3, 7]) = X_won \<and>
   reachable (clicks initial [1, 2, 3, 5, 4, 6, 8, 7]) \<and>
   makeTurn_try (clicks initial [1, 2, 3, 5, 4, 6, 8, 7]) \<lparr>cell_id = 9, cell_value = Null\<rparr>
     = Inr (clicks initial [1, 2, 3, 5, 4, 6, 8, 7, 9]) \<and>
   checkWinCondition (cells (clicks initial [1, 2, 3, 5, 4, 6, 8, 7, 9])) = Inr None \<and>
   moveId (clicks initial [1, 2, 3, 5, 4, 6, 8, 7]) + 1 = 9 \<and>
   status (clicks initial [1, 2, 3, 5, 4, 6, 8, 7, 9]) = Stalemate \<and>
   reachable (clicks initial [5]) \<and>
   makeTurn_try (clicks initial [5]) \<lparr>cell_id = 1, cell_value = Null\<rparr>
     = Inr (clicks initial [5, 1]) \<and>
   status (clicks initial [5]) = O_turn \<and>
   status (clicks initial [5, 1]) = X_turn"
proof -
  have r1: "reachable (clicks initial [1, 2, 4, 3])"
    and r2: "reachable (clicks initial [1, 2, 3, 5, 4, 6, 8, 7])"
    and r3: "reachable (clicks initial [5])"
    by (rule reachable_clicks, rule reachable.start)+
  have c1: "\<lparr>cell_id = 7, cell_value = Null\<rparr> \<in> set (cells (clicks initial [1, 2, 4, 3]))"
    by code_simp
  have c2: "\<lparr>cell_id = 9, cell_value = Null\<rparr> \<in> set (cells (clicks initial [1, 2, 3, 5, 4, 6, 8, 7]))"
    by code_simp
  have c3: "\<lparr>cell_id = 1, cell_value = Null\<rparr> \<in> set (cells (clicks initial [5]))"
    by code_simp
  have t1: "makeTurn_try (clicks initial [1, 2, 4, 3]) \<lparr>cell_id = 7, cell_value = Null\<rparr>
     = Inr (clicks initial [1, 2, 4, 3, 7])" by code_simp
  have t2: "makeTurn_try (clicks initial [1, 2, 3, 5, 4, 6, 8, 7]) \<lparr>cell_id = 9, cell_value = Null\<rparr>
     = Inr (clicks initial [1, 2, 3, 5, 4, 6, 8, 7, 9])" by code_simp
  have t3: "makeTurn_try (clicks initial [5]) \<lparr>cell_id = 1, cell_value = Null\<rparr>
     = Inr (clicks initial [5, 1])" by code_simp
  have w1: "checkWinCondition (cells (clicks initial [1, 2, 4, 3, 7])) = Inr (Some X_won)"
    by code_simp
  have w2: "checkWinCondition (cells (clicks initial [1, 2, 3, 5, 4, 6, 8, 7, 9])) = Inr None"
    by code_simp
  have w3: "checkWinCondition (cells (clicks initial [5, 1])) = Inr None" by code_simp
  have m2: "moveId (clicks initial [1, 2, 3, 5, 4, 6, 8, 7]) + 1 = 9" by code_simp
  have m3: "moveId (clicks initial [5]) + 1 \<noteq> 9" by code_simp
  have s3: "status (clicks initial [5]) = O_turn" by code_simp
  from makeTurn_new_status[OF r1 c1 t1] w1
  have a1: "status (clicks initial [1, 2, 4, 3, 7]) = X_won" by blast
  from makeTurn_new_status[OF r2 c2 t2] w2 m2
  have a2: "status (clicks initial [1, 2, 3, 5, 4, 6, 8, 7, 9]) = Stalemate" by blast
  from makeTurn_new_status[OF r3 c3 t3] w3 m3 s3
  have a3: "status (clicks initial [5, 1]) = X_turn" by blast
  from r1 r2 r3 c1 t1 t2 t3 w1 w2 m2 s3 a1 a2 a3 show ?thesis by blast
qed

lemma updatedCells_marks_target:
  "updatedCells st i cs = Inr ucs \<Longrightarrow> c \<in> set cs \<Longrightarrow> cell_id c = i \<Longrightarrow>
   \<exists>d \<in> set ucs. cell_id d = i \<and> (cell_value d = MarkX \<or> cell_value d = MarkO)"
proof (induction cs arbitrary: ucs)
  case Nil
  then show ?case by simp
next
  case (Cons a cs)
  from Cons.prems(1) obtain cs' where r: "updatedCells st i cs = Inr cs'"
    by (cases "updatedCells st i cs") (auto split: if_splits)
  show ?case
  proof (cases "cell_id a = i")
    case True
    with Cons.prems(1) r
    have "ucs = a\<lparr>cell_value := (if st = X_turn then MarkX else MarkO)\<rparr> # cs'"
      by (auto split: if_splits)
    with True show ?thesis by auto
  next
    case False
    with Cons.prems(1) r have u: "ucs = a # cs'" by auto
    from False Cons.prems(2,3) have "c \<in> set cs" by auto
    from Cons.IH[OF r this Cons.prems(3)] u show ?thesis by auto
  qed
qed

text \<open>
  C6. In a session whose status is not a win (so in every session with a player to
  move), a move on a cell whose identifier belongs to a cell of the board holding a mark
  is rejected with \<^verbatim>\<open>CELL_ALREADY_HAS_VALUE\<close>, and the session stays as it is. In
  particular, after an accepted click that did not end the game by a win, a second click
  on the same cell is rejected so, with the session (and the board) unchanged.
\<close>

theorem makeTurn_rejects_occupied_cell:
  "(status s \<noteq> X_won \<and> status s \<noteq> O_won \<and>
    d \<in> set (cells s) \<and> cell_id d = cell_id c \<and>
    (cell_value d = MarkX \<or> cell_value d = MarkO) \<longrightarrow>
      makeTurn_try s c = Inl (GameError CELL_ALREADY_HAS_VALUE) \<and>
      makeTurn s c = (s, Some ''This cell already has value'')) \<and>
   (c \<in> set (cells s) \<and> makeTurn_try s c = Inr s' \<and>
    status s' \<noteq> X_won \<and> status s' \<noteq> O_won \<and> cell_id c' = cell_id c \<longrightarrow>
      makeTurn_try s' c' = Inl (GameError CELL_ALREADY_HAS_VALUE) \<and>
      makeTurn s' c' = (s', Some ''This cell already has value''))"
proof (intro conjI impI)
  assume a: "status s \<noteq> X_won \<and> status s \<noteq> O_won \<and>
    d \<in> set (cells s) \<and> cell_id d = cell_id c \<and>
    (cell_value d = MarkX \<or> cell_value d = MarkO)"
  then have "truthy (cell_value d)" by auto
  with a have r: "makeTurn_try s c = Inl (GameError CELL_ALREADY_HAS_VALUE) \<and>
         makeTurn s c = (s, Some ''This cell already has value'')"
    by (intro makeTurn_occupied[of s d c]) simp_all
  from r show "makeTurn_try s c = Inl (GameError CELL_ALREADY_HAS_VALUE)" by simp
  from r show "makeTurn s c = (s, Some ''This cell already has value'')" by simp
next
  assume b: "c \<in> set (cells s) \<and> makeTurn_try s c = Inr s' \<and>
    status s' \<noteq> X_won \<and> status s' \<noteq> O_won \<and> cell_id c' = cell_id c"
  then obtain ucs where u: "updatedCells (status s) (cell_id c) (cells s) = Inr ucs"
    and c': "cells s' = ucs"
    by (elim conjE makeTurn_try_InrE)
  from b have "c \<in> set (cells s)" by simp
  from updatedCells_marks_target[OF u this refl] c'
  obtain d where d: "d \<in> set (cells s')" "cell_id d = cell_id c"
    "cell_value d = MarkX \<or> cell_value d = MarkO" by auto
  then have "truthy (cell_value d)" by auto
  with b d have r: "makeTurn_try s' c' = Inl (GameError CELL_ALREADY_HAS_VALUE) \<and>
         makeTurn s' c' = (s', Some ''This cell already has value'')"
    by (intro makeTurn_occupied[of s' d c']) simp_all
  from r show "makeTurn_try s' c' = Inl (GameError CELL_ALREADY_HAS_VALUE)" by simp
  from r show "makeTurn s' c' = (s', Some ''This cell already has value'')" by simp
qed

theorem makeTurn_rejects_occupied_cell_witness:
  "status (clicks initial [1, 5]) = X_turn \<and>
   \<lparr>cell_id = 5, cell_value = MarkO\<rparr> \<in> set (cells (clicks initial [1, 5])) \<and>
   makeTurn (clicks initial [1, 5]) \<lparr>cell_id = 5, cell_value = MarkO\<rparr>
     = (clicks initial [1, 5], Some ''This cell already has value'') \<and>
   \<lparr>cell_id = 1, cell_value = Null\<rparr> \<in> set (cells initial) \<and>
   makeTurn_try initial \<lparr>cell_id = 1, cell_value = Null\<rparr> = Inr (clicks initial [1]) \<and>
   status (clicks initial [1]) = O_turn \<and>
   makeTurn_try (clicks initial [1]) \<lparr>cell_id = 1, cell_value = MarkX\<rparr>
     = Inl (GameError CELL_ALREADY_HAS_VALUE) \<and>
   makeTurn (clicks initial [1]) \<lparr>cell_id = 1, cell_value = MarkX\<rparr>
     = (clicks initial [1], Some ''This cell already has value'') \<and>
   cells (fst (makeTurn (clicks initial [1]) \<lparr>cell_id = 1, cell_value = MarkX\<rparr>))
     = cells (clicks initial [1])"
proof -
  let ?o = "\<lparr>cell_id = 5, cell_value = MarkO\<rparr>"
  let ?e = "\<lparr>cell_id = 1, cell_value = Null\<rparr>"
  let ?x = "\<lparr>cell_id = 1, cell_value = MarkX\<rparr>"
  have s1: "status (clicks initial [1, 5]) = X_turn" by code_simp
  have d1: "?o \<in> set (cells (clicks initial [1, 5]))" by code_simp
  have c2: "?e \<in> set (cells initial)" by code_simp
  have t2: "makeTurn_try initial ?e = Inr (clicks initial [1])" by code_simp
  have s2: "status (clicks initial [1]) = O_turn" by code_simp
  from makeTurn_rejects_occupied_cell[of "clicks initial [1, 5]" ?o ?o] s1 d1
  have a1: "makeTurn (clicks initial [1, 5]) ?o
     = (clicks initial [1, 5], Some ''This cell already has value'')" by simp
  from makeTurn_rejects_occupied_cell[of initial ?e ?e "clicks initial [1]" ?x] c2 t2 s2
  have a2: "makeTurn_try (clicks initial [1]) ?x = Inl (GameError CELL_ALREADY_HAS_VALUE)"
    and a3: "makeTurn (clicks initial [1]) ?x
     = (clicks initial [1], Some ''This cell already has value'')" by simp_all
  from a3 have a4: "cells (fst (makeTurn (clicks initial [1]) ?x)) = cells (clicks initial [1])"
    by (simp only: fst_conv)
  from s1 d1 c2 t2 s2 a1 a2 a3 a4 show ?thesis by blast
qed

subsection \<open>The win detector\<close>

lemma each_id_once_present:
  assumes "each_id_once cs" and "i \<in> set [1, 2, 3, 4, 5, 6, 7, 8, 9]"
  shows "\<exists>v. cellValue cs i = Some v"
proof -
  from assms have "length (filter (\<lambda>c. cell_id c = i) cs) = 1"
    unfolding each_id_once_def list_all_iff by blast
  then have "filter (\<lambda>c. cell_id c = i) cs \<noteq> []" by auto
  then obtain c where "c \<in> set cs" "cell_id c = i"
    by (auto simp: filter_empty_conv)
  then have "find (\<lambda>c. cell_id c = i) cs \<noteq> None" by (auto simp: find_None_iff)
  then show ?thesis by (auto simp: cellValue_def split: option.splits)
qed

lemma winConditions_present:
  assumes "each_id_once cs" and "l \<in> set winConditions"
  shows "line_present cs l"
proof -
  have "\<forall>i \<in> set [1, 2, 3, 4, 5, 6, 7, 8, 9]. cellValue cs i \<noteq> None"
    using each_id_once_present[OF assms(1)] by fastforce
  then have p: "cellValue cs (Suc 0) \<noteq> None \<and> cellValue cs 2 \<noteq> None \<and>
      cellValue cs 3 \<noteq> None \<and> cellValue cs 4 \<noteq> None \<and> cellValue cs 5 \<noteq> None \<and>
      cellValue cs 6 \<noteq> None \<and> cellValue cs 7 \<noteq> None \<and> cellValue cs 8 \<noteq> None \<and>
      cellValue cs 9 \<noteq> None"
    by simp
  from assms(2) have "l \<in> {(Suc 0, 2, 3), (4, 5, 6), (7, 8, 9), (Suc 0, 4, 7), (2, 5, 8),
      (3, 6, 9), (Suc 0, 5, 9), (3, 5, 7)}"
    by (simp add: winConditions_def)
  with p show ?thesis unfolding line_present_def by auto
qed

lemma checkLines_step:
  assumes "cellValue cs i0 = Some v0" and "cellValue cs i1 = Some v1"
    and "cellValue cs i2 = Some v2"
  shows "checkLines cs ((i0, i1, i2) # rest) =
     (if v0 = v1 \<and> v1 = v2 \<and> v0 = MarkO then Inr (Some O_won)
      else if v0 = v1 \<and> v1 = v2 \<and> v0 = MarkX then Inr (Some X_won)
      else checkLines cs rest)"
  using assms by simp

lemma checkLines_total:
  assumes "\<forall>l \<in> set ls. line_present cs l"
  shows "\<exists>won. checkLines cs ls = Inr won"
  using assms
proof (induction ls)
  case Nil
  then show ?case by simp
next
  case (Cons l ls)
  obtain i0 i1 i2 where l: "l = (i0, i1, i2)" by (cases l) auto
  from Cons.prems l obtain v0 v1 v2 where
    v: "cellValue cs i0 = Some v0" "cellValue cs i1 = Some v1" "cellValue cs i2 = Some v2"
    by (auto simp: line_present_def)
  from Cons have "\<exists>won. checkLines cs ls = Inr won" by simp
  then show ?case unfolding l checkLines_step[OF v] by auto
qed

lemma cellValue_marks:
  assumes "marks_only cs" and "cellValue cs i = Some v"
  shows "v = MarkX \<or> v = MarkO \<or> v = Null"
proof -
  from assms(2) obtain c where "find (\<lambda>c. cell_id c = i) cs = Some c" and v: "v = cell_value c"
    by (auto simp: cellValue_def split: option.splits)
  then have "c \<in> set cs" by (auto simp: find_Some_iff)
  with assms(1) v show ?thesis by (auto simp: marks_only_def list_all_iff)
qed

lemma checkLines_find:
  assumes "\<forall>l \<in> set ls. line_present cs l" and "marks_only cs"
  shows "checkLines cs ls =
     Inr (case find (three_equal_nonempty cs) ls of
            None \<Rightarrow> None
          | Some (i0, i1, i2) \<Rightarrow> win_status (cellValue cs i0))"
  using assms(1)
proof (induction ls)
  case Nil
  then show ?case by simp
next
  case (Cons l ls)
  obtain i0 i1 i2 where l: "l = (i0, i1, i2)" by (cases l) auto
  from Cons.prems l obtain v0 v1 v2 where
    v: "cellValue cs i0 = Some v0" "cellValue cs i1 = Some v1" "cellValue cs i2 = Some v2"
    by (auto simp: line_present_def)
  from Cons have IH: "checkLines cs ls =
     Inr (case find (three_equal_nonempty cs) ls of
            None \<Rightarrow> None
          | Some (i0, i1, i2) \<Rightarrow> win_status (cellValue cs i0))" by simp
  from cellValue_marks[OF assms(2) v(1)] have m: "v0 = MarkX \<or> v0 = MarkO \<or> v0 = Null" .
  have t: "three_equal_nonempty cs (i0, i1, i2) = (v0 = v1 \<and> v1 = v2 \<and> v0 \<noteq> Null)"
    by (simp add: three_equal_nonempty_def v)
  show ?case
  proof (cases "v0 = v1 \<and> v1 = v2 \<and> v0 \<noteq> Null")
    case True
    with t have tt: "three_equal_nonempty cs (i0, i1, i2)" by blast
    from True m have vm: "v0 = MarkX \<or> v0 = MarkO" by blast
    have step: "checkLines cs ((i0, i1, i2) # ls) = Inr (win_status (Some v0))"
      using True vm by (subst checkLines_step[OF v]) auto
    show ?thesis unfolding l
      by (simp only: step find.simps tt if_True option.case prod.case v(1))
  next
    case False
    with t have nt: "\<not> three_equal_nonempty cs (i0, i1, i2)" by blast
    have step: "checkLines cs ((i0, i1, i2) # ls) = checkLines cs ls"
      using False by (subst checkLines_step[OF v]) auto
    show ?thesis unfolding l
      by (simp only: step IH find.simps nt if_False)
  qed
qed

lemma winConditions_order: "winConditions = rows @ columns @ diagonals"
  by (simp add: winConditions_def rows_def columns_def diagonals_def)

lemma checkWinCondition_evaluate:
  assumes "each_id_once cs" and "marks_only cs"
  shows "checkWinCondition cs = Inr (evaluate cs)"
proof -
  from assms(1) have "\<forall>l \<in> set winConditions. line_present cs l"
    by (simp add: winConditions_present)
  from checkLines_find[OF this assms(2)] show ?thesis
    by (simp add: checkWinCondition_def evaluate_def winConditions_order)
qed

lemma holds_line_wins:
  assumes e: "each_id_once cs" and m: "marks_only cs"
    and l: "l \<in> set winConditions" and h: "holds_line cs l p"
    and p: "p = MarkX \<or> p = MarkO"
    and o: "\<forall>l' \<in> set winConditions. \<not> holds_line cs l' q"
    and q: "(p = MarkX \<and> q = MarkO) \<or> (p = MarkO \<and> q = MarkX)"
  shows "evaluate cs = win_status (Some p)"
proof -
  from h p have "three_equal_nonempty cs l"
    by (cases l) (auto simp: holds_line_def three_equal_nonempty_def)
  with l have "find (three_equal_nonempty cs) winConditions \<noteq> None"
    unfolding find_None_iff by blast
  then obtain l0 where f: "find (three_equal_nonempty cs) winConditions = Some l0" by auto
  then have l0: "l0 \<in> set winConditions" and t0: "three_equal_nonempty cs l0"
    by (auto simp: find_Some_iff)
  obtain i0 i1 i2 where l0e: "l0 = (i0, i1, i2)" by (cases l0) auto
  have "cellValue cs i0 = cellValue cs i1 \<and> cellValue cs i1 = cellValue cs i2 \<and>
    cellValue cs i0 \<noteq> None \<and> cellValue cs i0 \<noteq> Some Null"
    using t0 unfolding l0e three_equal_nonempty_def prod.case .
  then have eq: "cellValue cs i0 = cellValue cs i1" "cellValue cs i1 = cellValue cs i2"
    "cellValue cs i0 \<noteq> None" "cellValue cs i0 \<noteq> Some Null"
    by blast+
  from eq(3) obtain v where v0: "cellValue cs i0 = Some v" by auto
  with eq have v: "cellValue cs i0 = Some v" "cellValue cs i1 = Some v"
    "cellValue cs i2 = Some v" and vn: "v \<noteq> Null"
    by auto
  from cellValue_marks[OF m v(1)] vn have vm: "v = MarkX \<or> v = MarkO" by simp
  from v l0e have hv: "holds_line cs l0 v" by (simp add: holds_line_def)
  from o l0 have "\<not> holds_line cs l0 q" by blast
  with hv have "v \<noteq> q" by auto
  with vm q have "v = p" by auto
  with f l0e v show ?thesis by (simp add: evaluate_def winConditions_order[symmetric])
qed

text \<open>
  C5. On a board with each identifier 1..9 once and no value but empty and the two
  marks, the win detector goes through the eight lines in the order rows, columns,
  diagonals, and its result is that of \<open>evaluate\<close>: the win status of the owner of the
  first line whose three values are equal and non-empty, and none when there is no such
  line. In particular, when a player's mark is on all three cells of one of the eight
  lines and the other player holds no line, the result is that player's win status.
\<close>

theorem checkWinCondition_first_line:
  assumes "each_id_once cs" and "marks_only cs"
  shows "winConditions = rows @ columns @ diagonals \<and>
         checkWinCondition cs = Inr (evaluate cs) \<and>
         (\<forall>l \<in> set winConditions.
            holds_line cs l MarkX \<and> (\<forall>l' \<in> set winConditions. \<not> holds_line cs l' MarkO)
            \<longrightarrow> checkWinCondition cs = Inr (Some X_won)) \<and>
         (\<forall>l \<in> set winConditions.
            holds_line cs l MarkO \<and> (\<forall>l' \<in> set winConditions. \<not> holds_line cs l' MarkX)
            \<longrightarrow> checkWinCondition cs = Inr (Some O_won))"
proof -
  note ev = checkWinCondition_evaluate[OF assms]
  have x: "checkWinCondition cs = Inr (Some X_won)"
    if "l \<in> set winConditions" and "holds_line cs l MarkX"
      and "\<forall>l' \<in> set winConditions. \<not> holds_line cs l' MarkO" for l
    using holds_line_wins[OF assms that(1,2) _ that(3)] ev by simp
  have o: "checkWinCondition cs = Inr (Some O_won)"
    if "l \<in> set winConditions" and "holds_line cs l MarkO"
      and "\<forall>l' \<in> set winConditions. \<not> holds_line cs l' MarkX" for l
    using holds_line_wins[OF assms that(1,2) _ that(3)] ev by simp
  from ev x o winConditions_order show ?thesis by blast
qed


theorem checkWinCondition_first_line_witness:
  "each_id_once (cells (clicks initial [1, 2, 4, 3, 7])) \<and>
   marks_only (cells (clicks initial [1, 2, 4, 3, 7])) \<and>
   (1, 4, 7) \<in> set winConditions \<and>
   holds_line (cells (clicks initial [1, 2, 4, 3, 7])) (1, 4, 7) MarkX \<and>
   checkWinCondition (cells (clicks initial [1, 2, 4, 3, 7])) = Inr (Some X_won) \<and>
   each_id_once two_lines \<and> marks_only two_lines \<and>
   holds_line two_lines (1, 2, 3) MarkO \<and> holds_line two_lines (4, 5, 6) MarkX \<and>
   evaluate two_lines = Some O_won \<and>
   checkWinCondition two_lines = Inr (Some O_won)"
proof -
  let ?cs = "cells (clicks initial [1, 2, 4, 3, 7])"
  have e: "each_id_once ?cs" by code_simp
  have m: "marks_only ?cs" by code_simp
  have l: "(1, 4, 7) \<in> set winConditions" by (simp add: winConditions_def)
  have h: "holds_line ?cs (1, 4, 7) MarkX" by code_simp
  have n: "\<forall>l' \<in> set winConditions. \<not> holds_line ?cs l' MarkO" by code_simp
  from checkWinCondition_first_line[OF e m] l h n
  have a: "checkWinCondition ?cs = Inr (Some X_won)" by blast
  have e2: "each_id_once two_lines" by code_simp
  have m2: "marks_only two_lines" by code_simp
  have h2: "holds_line two_lines (1, 2, 3) MarkO" by code_simp
  have h3: "holds_line two_lines (4, 5, 6) MarkX" by code_simp
  have v2: "evaluate two_lines = Some O_won" by code_simp
  from checkWinCondition_first_line[OF e2 m2] v2
  have b: "checkWinCondition two_lines = Inr (Some O_won)" by simp
  from e m l h a e2 m2 h2 h3 v2 b show ?thesis by blast
qed

text \<open>
  C9. On a board in which each identifier 1..9 appears exactly once, the lookup of every
  identifier 1..9 finds a cell, so the non-null assertion is never violated, and the win
  detector returns a result (none or a win status) and raises nothing. The detector only
  reads the board: it is a function of the board alone.
\<close>

theorem checkWinCondition_never_fails:
  assumes "each_id_once cs"
  shows "(\<forall>i \<in> set [1, 2, 3, 4, 5, 6, 7, 8, 9]. cellValue cs i \<noteq> None) \<and>
         (checkWinCondition cs = Inr None \<or>
          checkWinCondition cs = Inr (Some X_won) \<or>
          checkWinCondition cs = Inr (Some O_won))"
proof -
  have p: "\<forall>i \<in> set [1, 2, 3, 4, 5, 6, 7, 8, 9]. cellValue cs i \<noteq> None"
    using each_id_once_present[OF assms] by fastforce
  from assms have "\<forall>l \<in> set winConditions. line_present cs l"
    by (simp add: winConditions_present)
  then obtain won where w: "checkWinCondition cs = Inr won"
    using checkLines_total[of winConditions cs] by (auto simp: checkWinCondition_def)
  from checkWinCondition_result[OF w] w p show ?thesis by blast
qed

theorem checkWinCondition_never_fails_witness:
  "each_id_once (rev createCells) \<and>
   cellValue (rev createCells) 5 \<noteq> None \<and>
   checkWinCondition (rev createCells) \<noteq> Inl TypeError \<and>
   checkWinCondition (rev createCells) = Inr None"
proof -
  have e: "each_id_once (rev createCells)" by code_simp
  have r: "checkWinCondition (rev createCells) = Inr None" by code_simp
  have i: "(5::nat) \<in> set [1, 2, 3, 4, 5, 6, 7, 8, 9]" by simp
  from checkWinCondition_never_fails[OF e] i
  have a: "cellValue (rev createCells) 5 \<noteq> None" by blast
  from checkWinCondition_never_fails[OF e]
  have b: "checkWinCondition (rev createCells) \<noteq> Inl TypeError" by auto
  from e r a b show ?thesis by blast
qed

subsection \<open>Sequences of legal moves\<close>

lemma playAll_reachable:
  "reachable s \<Longrightarrow> playAll s ids = Some t \<Longrightarrow> reachable t \<and> moveId t = moveId s + length ids"
proof (induction ids arbitrary: s)
  case Nil
  then show ?case by simp
next
  case (Cons i ids)
  from Cons.prems(2) obtain c s' where f: "find (\<lambda>c. cell_id c = i) (cells s) = Some c"
    and t: "makeTurn_try s c = Inr s'" and p: "playAll s' ids = Some t"
    by (auto split: option.splits sum.splits)
  from f have cin: "c \<in> set (cells s)" using find_cell_in by blast
  from Cons.prems(1) cin have "reachable (fst (makeTurn s c))" by (rule reachable.turn)
  with t have r': "reachable s'" by (simp add: makeTurn_accept)
  from t have "moveId s' = moveId s + 1" by (rule makeTurn_try_InrE)
  with Cons.IH[OF r' p] show ?case by simp
qed

text \<open>
  C8. After a sequence of \<open>N\<close> accepted moves from the initial session the move index
  is \<open>N\<close> and the board has nine cells, \<open>N\<close> of them non-empty and \<open>9 - N\<close> empty.
  In every reachable session (also after jumps in the history) the number of non-empty
  cells is the current move index.
\<close>

theorem board_after_n_moves:
  "(playAll initial ids = Some s \<longrightarrow>
      moveId s = length ids \<and> filled (cells s) = length ids \<and>
      empties (cells s) = 9 - length ids \<and> length (cells s) = 9) \<and>
   (reachable t \<longrightarrow>
      filled (cells t) = moveId t \<and> empties (cells t) = 9 - moveId t \<and>
      length (cells t) = 9)"
proof -
  have R: "filled (cells u) = moveId u \<and> empties (cells u) = 9 - moveId u \<and>
      length (cells u) = 9" if "reachable u" for u
  proof -
    from that have i: "session_inv u" by (rule reachable_inv)
    from inv_board[OF i] well_formed_length show ?thesis by blast
  qed
  have P: "moveId s = length ids \<and> filled (cells s) = length ids \<and>
      empties (cells s) = 9 - length ids \<and> length (cells s) = 9"
    if "playAll initial ids = Some s"
  proof -
    from playAll_reachable[OF reachable.start that]
    have r: "reachable s" and m: "moveId s = length ids" by (simp_all add: initial_def)
    from R[OF r] m show ?thesis by simp
  qed
  from R P show ?thesis by blast
qed

theorem board_after_n_moves_witness:
  "playAll initial [1, 2, 4, 3, 7] = Some (clicks initial [1, 2, 4, 3, 7]) \<and>
   filled (cells (clicks initial [1, 2, 4, 3, 7])) = 5 \<and>
   empties (cells (clicks initial [1, 2, 4, 3, 7])) = 4 \<and>
   reachable (goToMove (moves (clicks initial [1, 2, 4, 3]) ! 1) (clicks initial [1, 2, 4, 3])) \<and>
   moveId (goToMove (moves (clicks initial [1, 2, 4, 3]) ! 1) (clicks initial [1, 2, 4, 3])) = 1 \<and>
   filled (cells (goToMove (moves (clicks initial [1, 2, 4, 3]) ! 1) (clicks initial [1, 2, 4, 3]))) = 1 \<and>
   empties (cells (goToMove (moves (clicks initial [1, 2, 4, 3]) ! 1) (clicks initial [1, 2, 4, 3]))) = 8"
proof -
  let ?w = "clicks initial [1, 2, 4, 3, 7]"
  let ?t = "clicks initial [1, 2, 4, 3]"
  let ?j = "goToMove (moves ?t ! 1) ?t"
  have p: "playAll initial [1, 2, 4, 3, 7] = Some ?w" by code_simp
  have "reachable ?t" by (rule reachable_clicks) (rule reachable.start)
  moreover have "moves ?t ! 1 \<in> set (moves ?t)" by code_simp
  ultimately have r: "reachable ?j" by (rule reachable.jump)
  have m: "moveId ?j = 1" by code_simp
  from board_after_n_moves[of "[1, 2, 4, 3, 7]" ?w ?j] p r m
  have "filled (cells ?w) = 5" and "empties (cells ?w) = 4"
    and "filled (cells ?j) = 1" and "empties (cells ?j) = 8"
    by simp_all
  with p r m show ?thesis by blast
qed

end
